theory Spec2Isabelle
  imports Complex_Main "HOL-Library.AList" "HOL-Library.Sublist"
begin

section \<open>STOMP frame codec of \<^verbatim>\<open>src/k6-ws-new.js\<close>\<close>

text \<open>
  JavaScript strings are modelled as \<^typ>\<open>string\<close> (lists of characters). A plain
  object used as a dictionary is an association list of its own properties in enumeration
  order; \<^verbatim>\<open>for (k in obj)\<close> walks the list and \<^verbatim>\<open>obj[k]\<close> is \<^const>\<open>map_of\<close>
  (\<^const>\<open>None\<close> for \<^verbatim>\<open>undefined\<close>).
\<close>

definition LF :: char where
  "LF = CHR 0x0A"

definition NUL :: char where
  "NUL = CHR 0x00"

text \<open>\<^verbatim>\<open>for (const k in headers) frame += `${k}:${headers[k]}\n`\<close>\<close>

fun header_lines :: "(string \<times> string) list \<Rightarrow> string" where
  "header_lines [] = []"
| "header_lines ((k, v) # hs) = k @ '':'' @ v @ [LF] @ header_lines hs"

text \<open>
  \<^verbatim>\<open>stompFrame(command, headers, body)\<close>. The call sites for CONNECT and SUBSCRIBE omit
  \<^verbatim>\<open>body\<close>, so both \<^verbatim>\<open>headers\<close> and \<^verbatim>\<open>body\<close> are optional (\<^const>\<open>None\<close> is
  \<^verbatim>\<open>undefined\<close>). \<^verbatim>\<open>if (headers)\<close> holds for every object; \<^verbatim>\<open>if (body)\<close> fails for
  \<^verbatim>\<open>undefined\<close> and for the empty string.
\<close>

definition stompFrame :: "string \<Rightarrow> (string \<times> string) list option \<Rightarrow> string option \<Rightarrow> string" where
  "stompFrame command headers body =
     (let frame = command @ [LF];
          frame = (case headers of None \<Rightarrow> frame | Some h \<Rightarrow> frame @ header_lines h);
          frame = frame @ [LF];
          frame = (case body of None \<Rightarrow> frame
                   | Some b \<Rightarrow> if b \<noteq> [] then frame @ b else frame)
      in frame @ [NUL])"

text \<open>\<^verbatim>\<open>s.indexOf(pat)\<close>: the first position where \<^verbatim>\<open>pat\<close> occurs; \<^const>\<open>None\<close> is \<^verbatim>\<open>-1\<close>.\<close>

fun indexOf :: "string \<Rightarrow> string \<Rightarrow> nat option" where
  "indexOf [] pat = (if pat = [] then Some 0 else None)"
| "indexOf (c # cs) pat =
     (if prefix pat (c # cs) then Some 0 else map_option Suc (indexOf cs pat))"

text \<open>\<^verbatim>\<open>s.split(sep)\<close> for a one-character separator: always at least one piece.\<close>

fun js_split :: "char \<Rightarrow> string \<Rightarrow> string list" where
  "js_split sep [] = [[]]"
| "js_split sep (c # cs) =
     (if c = sep then [] # js_split sep cs
      else (case js_split sep cs of [] \<Rightarrow> [[c]] | l # ls \<Rightarrow> (c # l) # ls))"

text \<open>
  Property keys. An array index is the canonical decimal numeral of a number below
  4294967295: digits only, no leading zero unless it is \<^verbatim>\<open>0\<close> itself. An object
  enumerates its array-index keys first, in ascending numeric order, and then its other
  string keys in the order in which they were created.
\<close>

definition is_digit :: "char \<Rightarrow> bool" where
  "is_digit c = (c \<in> set ''0123456789'')"

definition digit_val :: "char \<Rightarrow> nat" where
  "digit_val c = of_char c - 48"

definition undec :: "string \<Rightarrow> nat" where
  "undec ds = foldl (\<lambda>a c. 10 * a + digit_val c) 0 ds"

definition is_array_index :: "string \<Rightarrow> bool" where
  "is_array_index k =
     (k \<noteq> [] \<and> list_all is_digit k \<and> (k = ''0'' \<or> hd k \<noteq> CHR ''0'') \<and> undec k < 4294967295)"

fun js_enum_order :: "(string \<times> 'v) list \<Rightarrow> bool" where
  "js_enum_order (p # q # ps) =
     ((is_array_index (fst q) \<longrightarrow> is_array_index (fst p) \<and> undec (fst p) < undec (fst q)) \<and>
      js_enum_order (q # ps))"
| "js_enum_order _ = True"

text \<open>A new array-index key takes its place among the array-index keys.\<close>

fun insert_index :: "string \<Rightarrow> 'v \<Rightarrow> (string \<times> 'v) list \<Rightarrow> (string \<times> 'v) list" where
  "insert_index k v [] = [(k, v)]"
| "insert_index k v (p # ps) =
     (if is_array_index (fst p) \<and> undec (fst p) < undec k then p # insert_index k v ps
      else (k, v) # p # ps)"

text \<open>
  \<^verbatim>\<open>obj[k] = v\<close> on an object created as \<^verbatim>\<open>{}\<close>, for a string \<^verbatim>\<open>v\<close>. The key
  \<^verbatim>\<open>__proto__\<close> names the accessor inherited from \<^verbatim>\<open>Object.prototype\<close>, whose setter
  ignores a value that is not an object or \<^verbatim>\<open>null\<close>: nothing is stored. An existing key
  keeps its place and takes the new value; a new array-index key is placed by
  \<^const>\<open>insert_index\<close>; any other new key goes to the end.
\<close>

definition js_set :: "string \<Rightarrow> 'v \<Rightarrow> (string \<times> 'v) list \<Rightarrow> (string \<times> 'v) list" where
  "js_set k v obj =
     (if k = ''__proto__'' then obj
      else if is_array_index k \<and> k \<notin> set (map fst obj) then insert_index k v obj
      else AList.update k v obj)"

text \<open>
  The header loop of \<^verbatim>\<open>parseStompFrame\<close> over \<^verbatim>\<open>lines[1..]\<close>: empty lines and lines
  whose first colon is missing or at position 0 are skipped (\<^verbatim>\<open>idx <= 0\<close>).
\<close>

fun parse_header_lines :: "string list \<Rightarrow> (string \<times> string) list \<Rightarrow> (string \<times> string) list" where
  "parse_header_lines [] headers = headers"
| "parse_header_lines (line # ls) headers =
     (if line = [] then parse_header_lines ls headers
      else (case indexOf line '':'' of
              None \<Rightarrow> parse_header_lines ls headers
            | Some idx \<Rightarrow>
                if idx \<le> 0 then parse_header_lines ls headers
                else parse_header_lines ls
                       (js_set (take idx line) (drop (idx + 1) line) headers)))"

text \<open>
  The object returned by \<^verbatim>\<open>parseStompFrame\<close>. The heartbeat object
  \<^verbatim>\<open>{ command: 'HEARTBEAT' }\<close> has no \<^verbatim>\<open>headers\<close> and no \<^verbatim>\<open>body\<close> property.
\<close>

record frame =
  command :: string
  headers :: "(string \<times> string) list option"
  body :: "string option"

definition HEARTBEAT :: frame where
  "HEARTBEAT = \<lparr>command = ''HEARTBEAT'', headers = None, body = None\<rparr>"

text \<open>\<^verbatim>\<open>parseStompFrame(raw)\<close>; \<^const>\<open>None\<close> is the \<^verbatim>\<open>null\<close> result.\<close>

definition parseStompFrame :: "string \<Rightarrow> frame option" where
  "parseStompFrame raw =
     (if raw = [] then None
      else if raw = [LF] then Some HEARTBEAT
      else
        let s = (if raw \<noteq> [] \<and> last raw = NUL then butlast raw else raw);
            splitIdx = indexOf s [LF, LF];
            head = (case splitIdx of Some i \<Rightarrow> take i s | None \<Rightarrow> s);
            body = (case splitIdx of Some i \<Rightarrow> drop (i + 2) s | None \<Rightarrow> []);
            lines = js_split LF head;
            command = (case lines of [] \<Rightarrow> [] | l # _ \<Rightarrow> if l \<noteq> [] then l else []);
            headers = parse_header_lines (tl lines) []
        in Some \<lparr>command = command, headers = Some headers, body = Some body\<rparr>)"

text \<open>
  The command line of a payload: what stands before its first line feed, the terminator
  at the end of the payload left aside.
\<close>

definition command_line :: "string \<Rightarrow> string" where
  "command_line raw =
     takeWhile (\<lambda>c. c \<noteq> LF) (if raw \<noteq> [] \<and> last raw = NUL then butlast raw else raw)"

text \<open>The valid triples of the round-trip property.\<close>

definition valid_header :: "string \<times> string \<Rightarrow> bool" where
  "valid_header kv =
     (fst kv \<noteq> [] \<and> CHR '':'' \<notin> set (fst kv) \<and> LF \<notin> set (fst kv) \<and> LF \<notin> set (snd kv))"

definition valid_triple :: "string \<Rightarrow> (string \<times> string) list \<Rightarrow> string \<Rightarrow> bool" where
  "valid_triple c h b =
     (c \<noteq> [] \<and> LF \<notin> set c \<and> distinct (map fst h) \<and> list_all valid_header h \<and> NUL \<notin> set b)"

text \<open>
  The text of an encoded frame before its blank line, as the decoder sees it: the command
  line and the header lines, each header line preceded by the line feed that ends the
  line before it.
\<close>

fun head_of :: "string \<Rightarrow> (string \<times> string) list \<Rightarrow> string" where
  "head_of l [] = l"
| "head_of l ((k, v) # hs) = l @ LF # head_of (k @ '':'' @ v) hs"

fun header_line :: "string \<times> string \<Rightarrow> string" where
  "header_line (k, v) = k @ '':'' @ v"


section \<open>Values, builtins and configuration\<close>

text \<open>
  The values \<^verbatim>\<open>JSON.parse\<close> can return, plus \<^verbatim>\<open>undefined\<close>. An object holds its own
  properties in enumeration order.
\<close>

datatype jsval =
    Undefined
  | Null
  | Bool bool
  | Num rat
  | Str string
  | Arr "jsval list"
  | Obj "(string \<times> jsval) list"

text \<open>JavaScript truthiness, as used by \<^verbatim>\<open>!x\<close>, \<^verbatim>\<open>a || b\<close> and \<^verbatim>\<open>if (x)\<close>.\<close>

fun truthy :: "jsval \<Rightarrow> bool" where
  "truthy Undefined = False"
| "truthy Null = False"
| "truthy (Bool b) = b"
| "truthy (Num n) = (n \<noteq> 0)"
| "truthy (Str s) = (s \<noteq> [])"
| "truthy (Arr _) = True"
| "truthy (Obj _) = True"

text \<open>\<^verbatim>\<open>a || b\<close>\<close>

definition js_or :: "jsval \<Rightarrow> jsval \<Rightarrow> jsval" where
  "js_or a b = (if truthy a then a else b)"

text \<open>
  Property read \<^verbatim>\<open>v.k\<close> for the keys the handler reads (\<^verbatim>\<open>message\<close>, \<^verbatim>\<open>content\<close>,
  \<^verbatim>\<open>senderId\<close>, \<^verbatim>\<open>senderID\<close>, \<^verbatim>\<open>fromUserId\<close>): primitives and arrays have none of them.
  The handler reads properties only of a truthy value, so the read never throws.
\<close>

fun js_get :: "jsval \<Rightarrow> string \<Rightarrow> jsval" where
  "js_get (Obj ps) k = (case map_of ps k of Some v \<Rightarrow> v | None \<Rightarrow> Undefined)"
| "js_get _ k = Undefined"

text \<open>
  Library functions whose code is not part of the repository are parameters:
  \<^verbatim>\<open>JSON.parse\<close> (\<^const>\<open>None\<close> when it throws), \<^verbatim>\<open>JSON.stringify\<close>, the string conversion
  of a template literal \<^verbatim>\<open>`${v}`\<close> for an arbitrary value, and \<^verbatim>\<open>Date.toISOString\<close>.
\<close>

record builtins =
  JSON_parse :: "string \<Rightarrow> jsval option"
  JSON_stringify :: "jsval \<Rightarrow> string"
  toStr :: "jsval \<Rightarrow> string"
  toISOString :: "nat \<Rightarrow> string"

text \<open>
  \<^verbatim>\<open>Date.now()\<close> is a natural number of milliseconds; \<^verbatim>\<open>`${ts}`\<close> of such a number is
  its decimal numeral.
\<close>

definition digit_char :: "nat \<Rightarrow> char" where
  "digit_char d = ''0123456789'' ! d"

function dec :: "nat \<Rightarrow> string" where
  "dec n = (if n < 10 then [digit_char n] else dec (n div 10) @ [digit_char (n mod 10)])"
  by pat_completeness auto
termination
  by (relation "measure (\<lambda>n. n)") auto

declare dec.simps [simp del]

text \<open>The per-session constants: \<^verbatim>\<open>__VU\<close>, the cached credentials, the timer settings.\<close>

record config =
  vu :: nat
  userId :: jsval
  jwt :: string
  SEND_INTERVAL_MS :: int
  SESSION_TIME_MS :: int
  CHAT_REFRESH_MS :: int

text \<open>\<^verbatim>\<open>safeJson(frame.body)\<close>: \<^verbatim>\<open>null\<close> when \<^verbatim>\<open>JSON.parse\<close> throws (as it does on \<^verbatim>\<open>undefined\<close>).\<close>

definition safeJson :: "builtins \<Rightarrow> string option \<Rightarrow> jsval" where
  "safeJson B s =
     (case s of None \<Rightarrow> Null
      | Some t \<Rightarrow> (case JSON_parse B t of None \<Rightarrow> Null | Some v \<Rightarrow> v))"

text \<open>\<^verbatim>\<open>msgText.match(/^ping:(\d+)$/)\<close>, returning the captured group \<^verbatim>\<open>m[1]\<close>.\<close>

definition ping_match :: "string \<Rightarrow> string option" where
  "ping_match t =
     (if take 5 t = ''ping:'' \<and> drop 5 t \<noteq> [] \<and> list_all is_digit (drop 5 t)
      then Some (drop 5 t) else None)"

section \<open>The session of \<^verbatim>\<open>ws.connect\<close>\<close>

datatype conn_state = CONNECTING | CHATTING

text \<open>Timers requested from the socket, with the delay passed.\<close>

datatype timer = SendLoop int | ChatRefresh int | SessionClose int

text \<open>
  The variables of the connection callback (\<^verbatim>\<open>state\<close>, \<^verbatim>\<open>chatIds\<close>, \<^verbatim>\<open>pending\<close>), what
  it asked of the socket (\<^verbatim>\<open>out\<close>: the frames passed to \<^verbatim>\<open>socket.send\<close>, oldest first;
  \<^verbatim>\<open>timers\<close>) and the metrics it feeds.
  \<^verbatim>\<open>msgRTT\<close> lists the values added to the trend, oldest first. The keys of
  \<^verbatim>\<open>pending\<close> are numerals; the handlers read single keys and teardown reads the number
  of keys, never their order, so \<^verbatim>\<open>pending[k] = v\<close> is \<^const>\<open>AList.update\<close> and
  \<^verbatim>\<open>delete pending[k]\<close> is \<^const>\<open>AList.delete\<close>.
\<close>

record session =
  state :: conn_state
  chatIds :: "jsval list"
  pending :: "(string \<times> nat) list"
  out :: "string list"
  timers :: "timer list"
  wsErrors :: nat
  stompErrors :: nat
  msgRTT :: "int list"
  messagesReceived :: nat
  messagesSent :: nat
  getChatReq :: nat

definition connect :: "config \<Rightarrow> string" where
  "connect cfg = stompFrame ''CONNECT''
     (Some [(''accept-version'', ''1.2''), (''heart-beat'', ''10000,10000''),
            (''Authorization'', jwt cfg)]) None"

definition subscribe :: "builtins \<Rightarrow> config \<Rightarrow> string" where
  "subscribe B cfg = stompFrame ''SUBSCRIBE''
     (Some [(''id'', ''sub-'' @ dec (vu cfg)),
            (''destination'', ''/user/'' @ toStr B (userId cfg) @ ''/queue/messages'')]) None"

text \<open>The state when the connection callback has run: the send loop is registered.\<close>

definition init :: "config \<Rightarrow> session" where
  "init cfg = \<lparr>state = CONNECTING, chatIds = [], pending = [], out = [],
     timers = [SendLoop (SEND_INTERVAL_MS cfg)], wsErrors = 0, stompErrors = 0, msgRTT = [],
     messagesReceived = 0, messagesSent = 0, getChatReq = 0\<rparr>"

definition socket_send :: "string \<Rightarrow> session \<Rightarrow> session" where
  "socket_send f s = s\<lparr>out := out s @ [f]\<rparr>"

text \<open>
  \<^verbatim>\<open>refreshChats()\<close>: \<^verbatim>\<open>getChats(jwt)\<close> is an HTTP call, so its result \<^verbatim>\<open>reply\<close> (the
  list of truthy chat ids, empty on any failure) comes from the environment; the call
  counts one \<^verbatim>\<open>getChatReq\<close>.
\<close>

definition refreshChats :: "jsval list \<Rightarrow> session \<Rightarrow> session" where
  "refreshChats reply s = s\<lparr>chatIds := reply, getChatReq := getChatReq s + 1\<rparr>"

text \<open>
  \<^verbatim>\<open>socket.on('open', ...)\<close>. Line 222 reads
  \<^verbatim>\<open>socket.setTimeout(SESSION_TIME_MS, () => socket.close())\<close>: the delay comes first and
  the callback second, the reverse of both \<^verbatim>\<open>socket.setInterval(callback, delay)\<close> calls
  of the script. The request is recorded in \<^verbatim>\<open>timers\<close>; when the socket closes is for
  the environment to say, by the event \<^verbatim>\<open>Close\<close>.
\<close>

definition onOpen :: "config \<Rightarrow> session \<Rightarrow> session" where
  "onOpen cfg s =
     (let s = socket_send (connect cfg) s
      in s\<lparr>timers := timers s @ [SessionClose (SESSION_TIME_MS cfg)]\<rparr>)"

text \<open>\<^verbatim>\<open>body.message || body.content || ''\<close>\<close>

definition msgText_of :: "jsval \<Rightarrow> jsval" where
  "msgText_of b = js_or (js_get b ''message'') (js_or (js_get b ''content'') (Str []))"

text \<open>\<^verbatim>\<open>body.senderId || body.senderID || body.fromUserId\<close>\<close>

definition senderId_of :: "jsval \<Rightarrow> jsval" where
  "senderId_of b =
     js_or (js_get b ''senderId'') (js_or (js_get b ''senderID'') (js_get b ''fromUserId''))"

text \<open>
  \<^verbatim>\<open>socket.on('message', ...)\<close>. \<^verbatim>\<open>now\<close> is what \<^verbatim>\<open>Date.now()\<close> returns during the call
  and \<^verbatim>\<open>reply\<close> what \<^verbatim>\<open>getChats\<close> returns if it is called.
\<close>

definition onMessage :: "builtins \<Rightarrow> config \<Rightarrow> string \<Rightarrow> nat \<Rightarrow> jsval list \<Rightarrow> session \<Rightarrow> session" where
  "onMessage B cfg raw now reply s =
     (case parseStompFrame raw of
        None \<Rightarrow> s
      | Some frame \<Rightarrow>
          if command frame = ''CONNECTED'' then
            (let s = s\<lparr>state := CHATTING\<rparr>;
                 s = socket_send (subscribe B cfg) s;
                 s = refreshChats reply s
             in if CHAT_REFRESH_MS cfg > 0
                then s\<lparr>timers := timers s @ [ChatRefresh (CHAT_REFRESH_MS cfg)]\<rparr>
                else s)
          else if command frame = ''ERROR'' then s\<lparr>stompErrors := stompErrors s + 1\<rparr>
          else if command frame \<noteq> ''MESSAGE'' then s
          else
            (let body = safeJson B (body frame) in
             if \<not> truthy body then s
             else
               (let s = s\<lparr>messagesReceived := messagesReceived s + 1\<rparr>;
                    msgText = msgText_of body;
                    senderId = senderId_of body
                in (case msgText of
                      Str t \<Rightarrow>
                        (case ping_match t of
                           Some nonce \<Rightarrow>
                             if toStr B senderId = toStr B (userId cfg) then
                               (case map_of (pending s) nonce of
                                  Some start \<Rightarrow>
                                    s\<lparr>msgRTT := msgRTT s @ [int now - int start],
                                      pending := AList.delete nonce (pending s)\<rparr>
                                | None \<Rightarrow> s)
                             else s
                         | None \<Rightarrow> s)
                    | _ \<Rightarrow> s))))"

text \<open>\<^verbatim>\<open>socket.on('error', ...)\<close>\<close>

definition onError :: "session \<Rightarrow> session" where
  "onError s = s\<lparr>wsErrors := wsErrors s + 1\<rparr>"

text \<open>
  The send loop, \<^verbatim>\<open>socket.setInterval(..., SEND_INTERVAL_MS)\<close>. \<^verbatim>\<open>now\<close> is the reading of
  \<^verbatim>\<open>Date.now()\<close> and \<^verbatim>\<open>rnd\<close> the value of
  \<^verbatim>\<open>Math.floor(Math.random() * chatIds.length)\<close>; an index out of range reads
  \<^verbatim>\<open>undefined\<close>.
\<close>

definition onSendTick :: "builtins \<Rightarrow> config \<Rightarrow> nat \<Rightarrow> nat \<Rightarrow> session \<Rightarrow> session" where
  "onSendTick B cfg now rnd s =
     (if state s \<noteq> CHATTING then s
      else if length (chatIds s) = 0 then s
      else
        (let cid = (if rnd < length (chatIds s) then chatIds s ! rnd else Undefined);
             ts = now;
             nonce = dec ts;
             s = s\<lparr>pending := AList.update nonce ts (pending s)\<rparr>;
             payloadObj = Obj [(''type'', Str ''SEND_MSG''), (''senderId'', userId cfg),
                               (''chatId'', cid), (''message'', Str (''ping:'' @ nonce)),
                               (''timeStamp'', Str (toISOString B ts))];
             body = JSON_stringify B payloadObj;
             frame = stompFrame ''SEND''
                       (Some [(''destination'', ''/api/chat''),
                              (''content-type'', ''application/json'')]) (Some body);
             s = socket_send frame s
         in s\<lparr>messagesSent := messagesSent s + 1\<rparr>))"

text \<open>One event of the socket's loop, with what the environment supplies to its handler.\<close>

datatype event =
    Open
  | Message string nat "jsval list"
  | SendTick nat nat
  | RefreshTick "jsval list"
  | Error
  | Close

fun step :: "builtins \<Rightarrow> config \<Rightarrow> event \<Rightarrow> session \<Rightarrow> session" where
  "step B cfg Open s = onOpen cfg s"
| "step B cfg (Message raw now reply) s = onMessage B cfg raw now reply s"
| "step B cfg (SendTick now rnd) s = onSendTick B cfg now rnd s"
| "step B cfg (RefreshTick reply) s = refreshChats reply s"
| "step B cfg Error s = onError s"
| "step B cfg Close s = s"

fun run :: "builtins \<Rightarrow> config \<Rightarrow> event list \<Rightarrow> session \<Rightarrow> session" where
  "run B cfg [] s = s"
| "run B cfg (e # es) s = run B cfg es (step B cfg e s)"

text \<open>A frame on the wire is a SEND frame when its command line reads SEND.\<close>

definition is_SEND :: "string \<Rightarrow> bool" where
  "is_SEND f = prefix (''SEND'' @ [LF]) f"

text \<open>The readings of \<^verbatim>\<open>Date.now()\<close> offered to the send loop during a run, in order.\<close>

fun tick_times :: "event list \<Rightarrow> nat list" where
  "tick_times [] = []"
| "tick_times (SendTick now rnd # es) = now # tick_times es"
| "tick_times (_ # es) = tick_times es"

text \<open>The readings of the clock offered to any handler during a run, in order.\<close>

fun readings :: "event list \<Rightarrow> nat list" where
  "readings [] = []"
| "readings (SendTick now rnd # es) = now # readings es"
| "readings (Message raw now reply # es) = now # readings es"
| "readings (_ # es) = readings es"

section \<open>Iterations of the default function and teardown\<close>

text \<open>
  The module-level state: the credential cache, \<^verbatim>\<open>globalPending\<close> and the counters written
  outside a session. \<^verbatim>\<open>globalPending[vu]\<close> holds the very object the session of that
  iteration mutates, so once the session has ended the entry reads as the session's final
  \<^verbatim>\<open>pending\<close>. \<^verbatim>\<open>sessions\<close> is a ghost field: the final state of every session that ran,
  oldest first.
\<close>

record world =
  userCreds :: "(nat \<times> jsval \<times> string) list"
  globalPending :: "(nat \<times> (string \<times> nat) list) list"
  signinErrors :: nat
  undeliveredMessages :: nat
  sessions :: "session list"

definition world0 :: world where
  "world0 = \<lparr>userCreds = [], globalPending = [], signinErrors = 0, undeliveredMessages = 0,
     sessions = []\<rparr>"

text \<open>
  One iteration of a virtual user with what its environment answers: \<^verbatim>\<open>__VU\<close>, the result
  of \<^verbatim>\<open>loginAndGetJwtAndUserId\<close> (read only when no credentials are cached), the result of
  \<^verbatim>\<open>getTicket\<close>, and the events of the socket (\<^const>\<open>None\<close> when the handshake fails and
  the connection callback never runs).
\<close>

datatype iteration = Iteration nat "(jsval \<times> string) option" "string option" "event list option"

text \<open>
  The default function. \<^verbatim>\<open>signinErrors\<close> stands for the two \<^verbatim>\<open>wsErrors.add(1)\<close> calls
  made before a socket exists. The three numbers are the timer settings of the script.
\<close>

definition open_session ::
  "builtins \<Rightarrow> int \<times> int \<times> int \<Rightarrow> nat \<Rightarrow> jsval \<times> string \<Rightarrow> string option \<Rightarrow> event list option \<Rightarrow>
   world \<Rightarrow> world" where
  "open_session B ms v creds ticket evs w =
     (case ticket of
        None \<Rightarrow> w\<lparr>signinErrors := signinErrors w + 1\<rparr>
      | Some t \<Rightarrow>
          if t = [] then w\<lparr>signinErrors := signinErrors w + 1\<rparr>
          else
            (let w = w\<lparr>globalPending := AList.update v [] (globalPending w)\<rparr>
             in (case evs of
                   None \<Rightarrow> w
                 | Some es \<Rightarrow>
                     (let cfg = \<lparr>vu = v, userId = fst creds, jwt = snd creds,
                                 SEND_INTERVAL_MS = fst ms, SESSION_TIME_MS = fst (snd ms),
                                 CHAT_REFRESH_MS = snd (snd ms)\<rparr>;
                          s = run B cfg es (init cfg)
                      in w\<lparr>globalPending := AList.update v (pending s) (globalPending w),
                           sessions := sessions w @ [s]\<rparr>))))"

fun default_fn :: "builtins \<Rightarrow> int \<times> int \<times> int \<Rightarrow> iteration \<Rightarrow> world \<Rightarrow> world" where
  "default_fn B ms (Iteration v login ticket evs) w =
     (case map_of (userCreds w) v of
        Some creds \<Rightarrow> open_session B ms v creds ticket evs w
      | None \<Rightarrow>
          (case login of
             None \<Rightarrow> w\<lparr>signinErrors := signinErrors w + 1\<rparr>
           | Some creds \<Rightarrow>
               open_session B ms v creds ticket evs
                 (w\<lparr>userCreds := AList.update v creds (userCreds w)\<rparr>)))"

fun iterations :: "builtins \<Rightarrow> int \<times> int \<times> int \<Rightarrow> iteration list \<Rightarrow> world \<Rightarrow> world" where
  "iterations B ms [] w = w"
| "iterations B ms (it # its) w = iterations B ms its (default_fn B ms it w)"

text \<open>\<^verbatim>\<open>teardown()\<close>\<close>

definition teardown :: "world \<Rightarrow> world" where
  "teardown w =
     (let total = foldl (\<lambda>total (v, p). total + length p) 0 (globalPending w)
      in w\<lparr>undeliveredMessages := undeliveredMessages w + total\<rparr>)"

section \<open>A sample environment for the worked examples\<close>

text \<open>
  \<^verbatim>\<open>JSON.parse\<close> restricted to the one message body the examples receive, the string
  conversion restricted to strings, and the default timer settings of the script.
\<close>

definition sample_builtins :: builtins where
  \<open>sample_builtins =
     \<lparr>JSON_parse = map_of
        [(''{"senderId":"u1","message":"ping:5"}'',
          Obj [(''senderId'', Str ''u1''), (''message'', Str ''ping:5'')])],
      JSON_stringify = (\<lambda>v. ''{}''),
      toStr = (\<lambda>v. case v of Str t \<Rightarrow> t | _ \<Rightarrow> []),
      toISOString = (\<lambda>n. [])\<rparr>\<close>

definition sample_config :: config where
  "sample_config = \<lparr>vu = 1, userId = Str ''u1'', jwt = ''Bearer t'',
     SEND_INTERVAL_MS = 10000, SESSION_TIME_MS = 600000, CHAT_REFRESH_MS = 30000\<rparr>"

definition CONNECTED_frame :: string where
  "CONNECTED_frame = ''CONNECTED'' @ [LF] @ ''version:1.2'' @ [LF, LF, NUL]"

definition echo_frame :: string where
  \<open>echo_frame = ''MESSAGE'' @ [LF] @ ''destination:/user/u1/queue/messages'' @ [LF, LF] @
     ''{"senderId":"u1","message":"ping:5"}'' @ [NUL]\<close>

text \<open>Further frames and runs for the worked examples.\<close>

definition ERROR_frame :: string where
  "ERROR_frame = ''ERROR'' @ [LF] @ ''message:denied'' @ [LF, LF, NUL]"

definition RECEIPT_frame :: string where
  "RECEIPT_frame = ''RECEIPT'' @ [LF] @ ''receipt-id:7'' @ [LF, LF, NUL]"

definition two_pending :: session where
  "two_pending = (init sample_config)\<lparr>state := CHATTING, chatIds := [Str ''c1''],
     pending := [(''5'', 5), (''7'', 7)]\<rparr>"

definition connected_run :: "event list" where
  "connected_run = [Open, Message CONNECTED_frame 1 [Str ''c1'']]"

definition collide_run :: "event list" where
  "collide_run = [Open, Message CONNECTED_frame 1 [Str ''c1''], SendTick 5 0, SendTick 5 0]"

definition echo_run :: "event list" where
  "echo_run = [Open, Message CONNECTED_frame 1 [Str ''c1''], SendTick 5 0, SendTick 7 0,
     Message echo_frame 9 [], Message echo_frame 10 [], Close]"



definition two_sessions :: "iteration list" where
  "two_sessions =
     [Iteration 1 (Some (Str ''u1'', ''Bearer t'')) (Some ''tk'')
        (Some [Open, Message CONNECTED_frame 1 [Str ''c1''], SendTick 5 0, Close]),
      Iteration 1 None (Some ''tk'') (Some [Open, Close])]"

section \<open>Auxiliary notions of the proofs\<close>

text \<open>
  The probes of a session that have reached an end by now: those resolved (one value in
  \<^verbatim>\<open>msgRTT\<close> each) and those still in \<^verbatim>\<open>pending\<close>, which is what teardown counts as
  undelivered.
\<close>

definition accounted :: "session \<Rightarrow> nat" where
  "accounted s = length (msgRTT s) + length (pending s)"

section \<open>Properties of the codec\<close>

lemma indexOf_skip: "c \<notin> set l \<Longrightarrow> indexOf (l @ rest) (c # p) = map_option (\<lambda>i. i + length l) (indexOf rest (c # p))"
  by (induction l) (auto simp: option.map_comp comp_def option.map_ident)

lemma indexOf_colon: "c \<notin> set k \<Longrightarrow> indexOf (k @ c # v) [c] = Some (length k)"
  by (simp add: indexOf_skip)

lemma frame_head_of: "l @ LF # header_lines h @ LF # b = head_of l h @ LF # LF # b"
proof (induction h arbitrary: l)
  case Nil
  then show ?case by simp
next
  case (Cons kv hs)
  obtain k v where kv: "kv = (k, v)" by (cases kv)
  have "l @ LF # header_lines (kv # hs) @ LF # b =
        l @ LF # ((k @ '':'' @ v) @ LF # header_lines hs @ LF # b)"
    by (simp add: kv)
  also have "\<dots> = l @ LF # (head_of (k @ '':'' @ v) hs @ LF # LF # b)"
    by (simp only: Cons.IH)
  finally show ?case by (simp add: kv)
qed

lemma indexOf_head_of:
  "LF \<notin> set l \<Longrightarrow> l \<noteq> [] \<Longrightarrow> list_all valid_header h \<Longrightarrow>
   indexOf (head_of l h @ LF # LF # b) [LF, LF] = Some (length (head_of l h))"
proof (induction h arbitrary: l)
  case Nil
  then show ?case by (simp add: indexOf_skip)
next
  case (Cons kv hs)
  obtain k v where kv: "kv = (k, v)" by (cases kv)
  from Cons.prems kv have k: "k \<noteq> []" "LF \<notin> set k" "LF \<notin> set v" "LF \<noteq> CHR '':''"
    by (auto simp: valid_header_def LF_def)
  let ?l = "k @ '':'' @ v"
  have l': "LF \<notin> set ?l" "?l \<noteq> []" using k by auto
  have hd: "\<exists>a t. head_of ?l hs @ LF # LF # b = a # t \<and> a \<noteq> LF"
    using k by (cases k; cases hs) auto
  have ih: "indexOf (head_of ?l hs @ LF # LF # b) [LF, LF] = Some (length (head_of ?l hs))"
    using Cons.IH[OF l'] Cons.prems(3) by simp
  from hd obtain a t where at: "head_of ?l hs @ LF # LF # b = a # t" "a \<noteq> LF" by blast
  have "indexOf (LF # head_of ?l hs @ LF # LF # b) [LF, LF] = Some (Suc (length (head_of ?l hs)))"
    using ih at by simp
  then show ?case using Cons.prems(1) kv by (simp add: indexOf_skip)
qed

lemma js_split_nosep: "c \<notin> set l \<Longrightarrow> js_split c (l @ c # rest) = l # js_split c rest"
  by (induction l) auto

lemma js_split_single: "c \<notin> set l \<Longrightarrow> js_split c l = [l]"
  by (induction l) auto

lemma js_split_head_of:
  "LF \<notin> set l \<Longrightarrow> list_all valid_header h \<Longrightarrow>
   js_split LF (head_of l h) = l # map header_line h"
proof (induction h arbitrary: l)
  case Nil
  then show ?case by (simp add: js_split_single)
next
  case (Cons kv hs)
  obtain k v where kv: "kv = (k, v)" by (cases kv)
  from Cons.prems kv have "LF \<notin> set (k @ '':'' @ v)"
    by (auto simp: valid_header_def LF_def)
  with Cons show ?case by (simp add: kv js_split_nosep)
qed

lemma update_fresh: "k \<notin> fst ` set al \<Longrightarrow> AList.update k v al = al @ [(k, v)]"
  by (induction al) auto

lemma js_set_empty [simp]: "k \<noteq> ''__proto__'' \<Longrightarrow> js_set k v [] = [(k, v)]"
  by (simp add: js_set_def)

lemma js_enum_order_prefix: "js_enum_order (xs @ ys) \<Longrightarrow> js_enum_order xs"
  by (induction xs rule: js_enum_order.induct) auto

lemma js_enum_order_before_index:
  "js_enum_order (xs @ [(k, v)]) \<Longrightarrow> is_array_index k \<Longrightarrow>
   \<forall>p\<in>set xs. is_array_index (fst p) \<and> undec (fst p) < undec k"
proof (induction xs rule: js_enum_order.induct)
  case (1 p q ps)
  from "1.prems" have e: "js_enum_order (q # ps @ [(k, v)])"
    and c: "is_array_index (fst q) \<longrightarrow> is_array_index (fst p) \<and> undec (fst p) < undec (fst q)"
    by simp_all
  from "1.IH" e "1.prems"(2)
  have ih: "\<forall>r\<in>set (q # ps). is_array_index (fst r) \<and> undec (fst r) < undec k" by simp
  then have "is_array_index (fst q)" "undec (fst q) < undec k" by simp_all
  with c have "is_array_index (fst p) \<and> undec (fst p) < undec k" by auto
  with ih show ?case by simp
qed simp_all

lemma insert_index_last:
  "\<forall>p\<in>set xs. is_array_index (fst p) \<and> undec (fst p) < undec k \<Longrightarrow>
   insert_index k v xs = xs @ [(k, v)]"
  by (induction xs) auto

lemma js_set_new_key:
  assumes "k \<noteq> ''__proto__''" "k \<notin> fst ` set acc" "js_enum_order (acc @ [(k, v)])"
  shows "js_set k v acc = acc @ [(k, v)]"
proof (cases "is_array_index k")
  case True
  with assms(3) have "\<forall>p\<in>set acc. is_array_index (fst p) \<and> undec (fst p) < undec k"
    by (rule js_enum_order_before_index)
  then have "insert_index k v acc = acc @ [(k, v)]" by (rule insert_index_last)
  then show ?thesis using True assms(1,2) by (simp add: js_set_def)
next
  case False
  then show ?thesis using assms(1,2) by (simp add: js_set_def update_fresh)
qed

lemma parse_header_lines_roundtrip:
  "list_all valid_header h \<Longrightarrow> distinct (map fst (acc @ h)) \<Longrightarrow>
   js_enum_order (acc @ h) \<Longrightarrow> ''__proto__'' \<notin> fst ` set h \<Longrightarrow>
   parse_header_lines (map header_line h) acc = acc @ h"
proof (induction h arbitrary: acc)
  case Nil
  then show ?case by simp
next
  case (Cons kv hs)
  obtain k v where kv: "kv = (k, v)" by (cases kv)
  from Cons.prems kv have k: "k \<noteq> []" "CHR '':'' \<notin> set k"
    by (auto simp: valid_header_def)
  have fresh: "k \<notin> fst ` set acc" using Cons.prems(2) kv by auto
  have np: "k \<noteq> ''__proto__''" using Cons.prems(4) kv by auto
  have "js_enum_order ((acc @ [(k, v)]) @ hs)" using Cons.prems(3) kv by simp
  then have en: "js_enum_order (acc @ [(k, v)])" by (rule js_enum_order_prefix)
  have set: "js_set k v acc = acc @ [(k, v)]" using np fresh en by (rule js_set_new_key)
  have idx: "indexOf (k @ CHR '':'' # v) '':'' = Some (length k)"
    using k by (simp add: indexOf_colon)
  have "parse_header_lines (map header_line (kv # hs)) acc =
        parse_header_lines (map header_line hs) (acc @ [(k, v)])"
    using k idx set by (simp add: kv)
  also have "\<dots> = (acc @ [(k, v)]) @ hs"
    using Cons.prems kv by (intro Cons.IH) auto
  finally show ?case by (simp add: kv)
qed

text \<open>
  Claim C1, as stated, fails: a headers object can have an own property \<^verbatim>\<open>__proto__\<close>
  (from a computed key or from \<^verbatim>\<open>JSON.parse\<close>). The triple meets every condition of the
  claim and the encoder writes the header line, but the decoder's \<^verbatim>\<open>headers[k] = v\<close>
  stores nothing for that key: the header is lost.
\<close>

theorem proto_header_lost_counterexample:
  "valid_triple ''SEND'' [(''__proto__'', ''x'')] ''b'' \<and>
   parseStompFrame (stompFrame ''SEND'' (Some [(''__proto__'', ''x'')]) (Some ''b'')) =
     Some \<lparr>command = ''SEND'', headers = Some [], body = Some ''b''\<rparr>"
  by (simp add: valid_triple_def valid_header_def parseStompFrame_def stompFrame_def js_set_def
      LF_def NUL_def Let_def)

text \<open>
  The decoded object enumerates an array-index key before the other keys, wherever its
  line stood in the frame.
\<close>

lemma index_key_enumerates_first:
  "parse_header_lines [''b:x'', ''1:y''] [] = [(''1'', ''y''), (''b'', ''x'')]"
  by (simp add: js_set_def is_array_index_def is_digit_def undec_def digit_val_def)

text \<open>
  Claim C1, amended. For a non-empty command without line feed, a headers object without
  the key \<^verbatim>\<open>__proto__\<close> whose keys are non-empty and free of colon and line feed and whose
  values are free of line feed, and a body without the terminator,
  \<^verbatim>\<open>parseStompFrame(stompFrame(c, h, b))\<close> is the frame with command \<^verbatim>\<open>c\<close>, a headers
  object with the same entries in the same enumeration order as \<^verbatim>\<open>h\<close> (array-index keys
  first and ascending, the other keys in insertion order), and the body \<^verbatim>\<open>b\<close>.
\<close>

theorem stompFrame_roundtrip:
  assumes "valid_triple c h b" "js_enum_order h" "''__proto__'' \<notin> fst ` set h"
  shows "parseStompFrame (stompFrame c (Some h) (Some b)) =
         Some \<lparr>command = c, headers = Some h, body = Some b\<rparr>"
proof -
  from assms have c: "c \<noteq> []" "LF \<notin> set c" and h: "list_all valid_header h" "distinct (map fst h)"
    by (auto simp: valid_triple_def)
  have enc: "stompFrame c (Some h) (Some b) = (head_of c h @ LF # LF # b) @ [NUL]"
    using frame_head_of[of c h b] by (simp add: stompFrame_def Let_def)
  have ne: "stompFrame c (Some h) (Some b) \<noteq> []" "stompFrame c (Some h) (Some b) \<noteq> [LF]"
    unfolding enc using c by (auto simp: NUL_def LF_def)
  have s: "butlast (stompFrame c (Some h) (Some b)) = head_of c h @ LF # LF # b"
          "last (stompFrame c (Some h) (Some b)) = NUL"
    unfolding enc by (simp_all only: butlast_snoc last_snoc)
  have hs: "parse_header_lines (map header_line h) [] = [] @ h"
    using h(1) by (rule parse_header_lines_roundtrip) (use h(2) assms(2,3) in simp_all)
  show ?thesis
    unfolding parseStompFrame_def
    using ne s indexOf_head_of[OF c(2) c(1) h(1), of b] js_split_head_of[OF c(2) h(1)] c(1) hs
    by (simp add: Let_def)
qed

theorem stompFrame_roundtrip_witness:
  \<open>valid_triple ''SEND''
      [(''destination'', ''/api/chat''), (''content-type'', ''application/json'')]
      ''{"type":"SEND_MSG","senderId":"u1","chatId":"c1","message":"ping:42","timeStamp":"2024-01-01T00:00:00Z"}'' \<and>
   js_enum_order [(''destination'', ''/api/chat''), (''content-type'', ''application/json'')] \<and>
   parseStompFrame (stompFrame ''SEND''
      (Some [(''destination'', ''/api/chat''), (''content-type'', ''application/json'')])
      (Some ''{"type":"SEND_MSG","senderId":"u1","chatId":"c1","message":"ping:42","timeStamp":"2024-01-01T00:00:00Z"}'')) =
   Some \<lparr>command = ''SEND'',
         headers = Some [(''destination'', ''/api/chat''), (''content-type'', ''application/json'')],
         body = Some ''{"type":"SEND_MSG","senderId":"u1","chatId":"c1","message":"ping:42","timeStamp":"2024-01-01T00:00:00Z"}''\<rparr>\<close>
proof -
  have v: \<open>valid_triple ''SEND''
      [(''destination'', ''/api/chat''), (''content-type'', ''application/json'')]
      ''{"type":"SEND_MSG","senderId":"u1","chatId":"c1","message":"ping:42","timeStamp":"2024-01-01T00:00:00Z"}''\<close>
    by (simp add: valid_triple_def valid_header_def LF_def NUL_def)
  have e: "js_enum_order [(''destination'', ''/api/chat''), (''content-type'', ''application/json'')]"
    by (simp add: is_array_index_def is_digit_def)
  have p: "''__proto__'' \<notin> fst ` set [(''destination'', ''/api/chat''), (''content-type'', ''application/json'')]"
    by simp
  from stompFrame_roundtrip[OF v e p] v e show ?thesis by simp
qed

text \<open>
  An omitted body is not written and is read back as the empty string, as an empty body
  is: the CONNECT frame of the script decodes with \<^verbatim>\<open>body\<close> equal to \<^verbatim>\<open>''\<close>.
\<close>

lemma absent_body_decodes_empty:
  "parseStompFrame (stompFrame ''CONNECT'' (Some [(''accept-version'', ''1.2'')]) None) =
   Some \<lparr>command = ''CONNECT'', headers = Some [(''accept-version'', ''1.2'')], body = Some []\<rparr>"
  by (simp add: parseStompFrame_def stompFrame_def LF_def NUL_def Let_def)

text \<open>
  Claim C7, as stated, fails: a payload whose command line is missing (it starts with the
  line feed that should end the command) is not rejected; it is returned as a frame
  whose command is the empty string.
\<close>

theorem no_command_line_counterexample:
  "parseStompFrame (LF # ''destination:/x'' @ [LF, LF] @ ''body'' @ [NUL]) \<noteq> None \<and>
   parseStompFrame (LF # ''destination:/x'' @ [LF, LF] @ ''body'' @ [NUL]) =
     Some \<lparr>command = [], headers = Some [(''destination'', ''/x'')], body = Some ''body''\<rparr>"
  by (simp add: parseStompFrame_def LF_def NUL_def Let_def)

lemma first_line_empty: "js_split LF (take i (LF # x)) = [] # tl (js_split LF (take i (LF # x)))"
  by (cases i) auto

lemma command_empty_line:
  "(case js_split LF (take i (LF # x)) of [] \<Rightarrow> [] | l # _ \<Rightarrow> if l \<noteq> [] then l else []) = []"
  by (subst first_line_empty) simp

lemma parse_unfold:
  assumes "raw \<noteq> []" "raw \<noteq> [LF]" "s = (if last raw = NUL then butlast raw else raw)"
  shows "parseStompFrame raw = Some
     \<lparr>command = (case js_split LF (case indexOf s [LF, LF] of None \<Rightarrow> s | Some i \<Rightarrow> take i s) of
                   [] \<Rightarrow> [] | l # _ \<Rightarrow> if l \<noteq> [] then l else []),
      headers = Some (parse_header_lines
                  (tl (js_split LF (case indexOf s [LF, LF] of None \<Rightarrow> s | Some i \<Rightarrow> take i s))) []),
      body = Some (case indexOf s [LF, LF] of None \<Rightarrow> [] | Some i \<Rightarrow> drop (i + 2) s)\<rparr>"
  using assms(1,2) unfolding assms(3) by (simp add: parseStompFrame_def Let_def)

text \<open>
  Claim C7, amended. \<^verbatim>\<open>parseStompFrame\<close> is total (it never throws); it returns \<^verbatim>\<open>null\<close>
  for the empty payload and for no other; a payload of more than one character that
  starts with a line feed, so has no command line, is returned as an ordinary frame whose
  command is the empty string.
\<close>

theorem parseStompFrame_null_only_for_empty:
  "(parseStompFrame raw = None \<longleftrightarrow> raw = []) \<and>
   (rest \<noteq> [] \<longrightarrow>
      (\<exists>h b. parseStompFrame (LF # rest) = Some \<lparr>command = [], headers = Some h, body = Some b\<rparr>))"
proof
  show "parseStompFrame raw = None \<longleftrightarrow> raw = []"
    by (simp add: parseStompFrame_def Let_def)
next
  show "rest \<noteq> [] \<longrightarrow>
      (\<exists>h b. parseStompFrame (LF # rest) = Some \<lparr>command = [], headers = Some h, body = Some b\<rparr>)"
  proof
    assume r: "rest \<noteq> []"
    define s where "s = (if last (LF # rest) = NUL then butlast (LF # rest) else LF # rest)"
    have "\<exists>x. s = LF # x" using r by (auto simp: s_def)
    then obtain x where x: "s = LF # x" by blast
    have c: "(case js_split LF (case indexOf s [LF, LF] of None \<Rightarrow> s | Some i \<Rightarrow> take i s) of
               [] \<Rightarrow> [] | l # _ \<Rightarrow> if l \<noteq> [] then l else []) = []"
    proof (cases "indexOf s [LF, LF]")
      case None
      then show ?thesis by (simp add: x)
    next
      case (Some i)
      then show ?thesis using command_empty_line[of i x] by (simp add: x)
    qed
    have ne: "LF # rest \<noteq> []" "LF # rest \<noteq> [LF]" using r by simp_all
    show "\<exists>h b. parseStompFrame (LF # rest) =
                 Some \<lparr>command = [], headers = Some h, body = Some b\<rparr>"
      unfolding parse_unfold[OF ne s_def] c by blast
  qed
qed

theorem parseStompFrame_null_only_for_empty_witness:
  "''x:y'' \<noteq> [] \<and> parseStompFrame [] = None \<and>
   (\<exists>h b. parseStompFrame (LF # ''x:y'') = Some \<lparr>command = [], headers = Some h, body = Some b\<rparr>)"
  using parseStompFrame_null_only_for_empty[of "[]" "''x:y''"] by simp

lemma js_split_first: "\<exists>rest. js_split c x = takeWhile (\<lambda>a. a \<noteq> c) x # rest"
  by (induction x) (auto split: list.splits)

lemma indexOf_hit: "indexOf s (c # p) = Some i \<Longrightarrow> i < length s \<and> s ! i = c"
proof (induction s arbitrary: i)
  case Nil
  then show ?case by simp
next
  case (Cons a cs)
  show ?case
  proof (cases "prefix (c # p) (a # cs)")
    case True
    with Cons.prems show ?thesis by simp
  next
    case False
    with Cons.prems obtain j where j: "indexOf cs (c # p) = Some j" "i = Suc j"
      by (auto split: if_splits)
    from Cons.IH[OF j(1)] j(2) show ?thesis by simp
  qed
qed

lemma takeWhile_take_hit:
  "i < length s \<Longrightarrow> s ! i = c \<Longrightarrow>
   takeWhile (\<lambda>a. a \<noteq> c) (take i s) = takeWhile (\<lambda>a. a \<noteq> c) s"
proof (induction s arbitrary: i)
  case Nil
  then show ?case by simp
next
  case (Cons a cs)
  then show ?case by (cases i) auto
qed

lemma command_is_command_line:
  assumes "raw \<noteq> []" "raw \<noteq> [LF]"
  shows "\<exists>h b. parseStompFrame raw =
           Some \<lparr>command = command_line raw, headers = Some h, body = Some b\<rparr>"
proof -
  define s where "s = (if last raw = NUL then butlast raw else raw)"
  define hd where "hd = (case indexOf s [LF, LF] of None \<Rightarrow> s | Some i \<Rightarrow> take i s)"
  have cl: "command_line raw = takeWhile (\<lambda>a. a \<noteq> LF) s"
    using assms(1) by (simp add: command_line_def s_def)
  have tw: "takeWhile (\<lambda>a. a \<noteq> LF) hd = takeWhile (\<lambda>a. a \<noteq> LF) s"
  proof (cases "indexOf s [LF, LF]")
    case None
    then show ?thesis by (simp add: hd_def)
  next
    case (Some i)
    from indexOf_hit[OF Some] have "i < length s" "s ! i = LF" by simp_all
    then show ?thesis using Some by (simp add: hd_def takeWhile_take_hit)
  qed
  obtain rest where sp: "js_split LF hd = takeWhile (\<lambda>a. a \<noteq> LF) hd # rest"
    using js_split_first by blast
  have c: "(case js_split LF hd of [] \<Rightarrow> [] | l # _ \<Rightarrow> if l \<noteq> [] then l else []) =
           command_line raw"
    by (simp add: sp tw cl)
  show ?thesis
    unfolding parse_unfold[OF assms s_def] using c unfolding hd_def by simp
qed

text \<open>
  Claim C9, as stated, fails in its second half: a payload that is not the single line
  feed can be classified as a heartbeat too. The handler dispatches on \<^verbatim>\<open>frame.command\<close>,
  and a payload whose command line reads HEARTBEAT decodes with that command.
\<close>

theorem HEARTBEAT_command_counterexample:
  "''HEARTBEAT'' @ [LF, LF, NUL] \<noteq> [LF] \<and>
   parseStompFrame (''HEARTBEAT'' @ [LF, LF, NUL]) =
     Some \<lparr>command = ''HEARTBEAT'', headers = Some [], body = Some []\<rparr> \<and>
   command HEARTBEAT = ''HEARTBEAT''"
  by (simp add: parseStompFrame_def HEARTBEAT_def LF_def NUL_def Let_def)

text \<open>
  Claim C9, amended. \<^verbatim>\<open>parseStompFrame\<close> returns the heartbeat object, with the command
  HEARTBEAT and neither headers nor body, exactly for the payload that is the single line
  feed. Every other non-empty payload is returned as a frame with headers and body whose
  command is its command line. So the command HEARTBEAT is carried by the single line
  feed and by exactly those other payloads whose command line reads HEARTBEAT.
\<close>

theorem heartbeat_marker_and_command:
  "(parseStompFrame raw = Some HEARTBEAT \<longleftrightarrow> raw = [LF]) \<and>
   command HEARTBEAT = ''HEARTBEAT'' \<and>
   (raw \<noteq> [] \<and> raw \<noteq> [LF] \<longrightarrow>
      (\<exists>h b. parseStompFrame raw =
         Some \<lparr>command = command_line raw, headers = Some h, body = Some b\<rparr>)) \<and>
   (map_option command (parseStompFrame raw) = Some ''HEARTBEAT'' \<longleftrightarrow>
      raw = [LF] \<or> command_line raw = ''HEARTBEAT'')"
proof (intro conjI)
  show "parseStompFrame raw = Some HEARTBEAT \<longleftrightarrow> raw = [LF]"
    by (auto simp: parseStompFrame_def HEARTBEAT_def Let_def)
  show "command HEARTBEAT = ''HEARTBEAT''" by (simp add: HEARTBEAT_def)
  show "raw \<noteq> [] \<and> raw \<noteq> [LF] \<longrightarrow>
      (\<exists>h b. parseStompFrame raw =
         Some \<lparr>command = command_line raw, headers = Some h, body = Some b\<rparr>)"
    using command_is_command_line by blast
  show "map_option command (parseStompFrame raw) = Some ''HEARTBEAT'' \<longleftrightarrow>
      raw = [LF] \<or> command_line raw = ''HEARTBEAT''"
  proof (cases "raw = [] \<or> raw = [LF]")
    case True
    then show ?thesis
      by (auto simp: parseStompFrame_def HEARTBEAT_def command_line_def)
  next
    case False
    then obtain h b where "parseStompFrame raw =
        Some \<lparr>command = command_line raw, headers = Some h, body = Some b\<rparr>"
      using command_is_command_line[of raw] by blast
    then show ?thesis using False by simp
  qed
qed

theorem heartbeat_marker_and_command_witness:
  "parseStompFrame [LF] = Some HEARTBEAT \<and>
   RECEIPT_frame \<noteq> [] \<and> RECEIPT_frame \<noteq> [LF] \<and> command_line RECEIPT_frame = ''RECEIPT'' \<and>
   (\<exists>h b. parseStompFrame RECEIPT_frame =
      Some \<lparr>command = ''RECEIPT'', headers = Some h, body = Some b\<rparr>) \<and>
   map_option command (parseStompFrame RECEIPT_frame) \<noteq> Some ''HEARTBEAT'' \<and>
   command_line (''HEARTBEAT'' @ [LF, LF, NUL]) = ''HEARTBEAT'' \<and>
   map_option command (parseStompFrame (''HEARTBEAT'' @ [LF, LF, NUL])) = Some ''HEARTBEAT''"
proof -
  have r: "RECEIPT_frame \<noteq> []" "RECEIPT_frame \<noteq> [LF]" "command_line RECEIPT_frame = ''RECEIPT''"
    by (simp_all add: RECEIPT_frame_def command_line_def LF_def NUL_def)
  have h: "command_line (''HEARTBEAT'' @ [LF, LF, NUL]) = ''HEARTBEAT''"
    "''HEARTBEAT'' @ [LF, LF, NUL] \<noteq> [LF]"
    by (simp_all add: command_line_def LF_def NUL_def)
  from heartbeat_marker_and_command[of RECEIPT_frame]
    heartbeat_marker_and_command[of "''HEARTBEAT'' @ [LF, LF, NUL]"]
    heartbeat_marker_and_command[of "[LF]"] r h
  show ?thesis by simp
qed

section \<open>Properties of the session\<close>

lemmas session_defs = onMessage_def onOpen_def onSendTick_def init_def socket_send_def
  refreshChats_def Let_def safeJson_def msgText_of_def senderId_of_def js_or_def ping_match_def
  is_digit_def

lemma parse_CONNECTED_frame:
  "parseStompFrame CONNECTED_frame =
   Some \<lparr>command = ''CONNECTED'', headers = Some [(''version'', ''1.2'')], body = Some []\<rparr>"
  by (simp add: CONNECTED_frame_def parseStompFrame_def LF_def NUL_def Let_def)

lemma parse_echo_frame:
  \<open>parseStompFrame echo_frame =
   Some \<lparr>command = ''MESSAGE'', headers = Some [(''destination'', ''/user/u1/queue/messages'')],
         body = Some ''{"senderId":"u1","message":"ping:5"}''\<rparr>\<close>
  by (simp add: echo_frame_def parseStompFrame_def LF_def NUL_def Let_def)

lemma parse_ERROR_frame:
  "parseStompFrame ERROR_frame =
   Some \<lparr>command = ''ERROR'', headers = Some [(''message'', ''denied'')], body = Some []\<rparr>"
  by (simp add: ERROR_frame_def parseStompFrame_def LF_def NUL_def Let_def)


lemma dec_5: "dec 5 = ''5''"
  by (simp add: dec.simps digit_char_def)

lemma dec_7: "dec 7 = ''7''"
  by (simp add: dec.simps digit_char_def)

subsection \<open>The send loop waits for CONNECTED\<close>

lemma stompFrame_not_SEND: "c \<noteq> [] \<Longrightarrow> hd c \<noteq> CHR ''S'' \<Longrightarrow> \<not> is_SEND (stompFrame c h b)"
  by (cases c) (auto simp: is_SEND_def stompFrame_def Let_def split: option.splits)

lemma connect_not_SEND: "\<not> is_SEND (connect cfg)"
  by (simp add: connect_def stompFrame_not_SEND)

lemma subscribe_not_SEND: "\<not> is_SEND (subscribe B cfg)"
  by (simp add: subscribe_def is_SEND_def stompFrame_def Let_def)

lemma onMessage_out:
  "out (onMessage B cfg raw now reply s) = out s \<or>
   out (onMessage B cfg raw now reply s) = out s @ [subscribe B cfg]"
  by (auto simp: onMessage_def Let_def socket_send_def refreshChats_def
      split: option.splits jsval.splits)

text \<open>In CHATTING, with a chat to address, a tick of the send loop does send a SEND frame.\<close>

lemma tick_sends_SEND_when_CHATTING:
  assumes "state s = CHATTING" "chatIds s \<noteq> []"
  shows "\<exists>f. out (onSendTick B cfg now rnd s) = out s @ [f] \<and> is_SEND f"
  using assms
  by (simp add: onSendTick_def Let_def socket_send_def is_SEND_def stompFrame_def)

text \<open>
  Claim C3. The send loop does nothing unless the state is CHATTING, and no event handled
  while the state is CONNECTING passes a SEND frame to the socket: whatever the handler of
  that event sends (the CONNECT frame on open, the SUBSCRIBE frame on CONNECTED) is not a
  SEND frame.
\<close>

theorem no_SEND_while_CONNECTING:
  "(state s \<noteq> CHATTING \<longrightarrow> onSendTick B cfg now rnd s = s) \<and>
   (state s = CONNECTING \<longrightarrow>
      (\<exists>fs. out (step B cfg ev s) = out s @ fs \<and> (\<forall>f\<in>set fs. \<not> is_SEND f)))"
proof
  show "state s \<noteq> CHATTING \<longrightarrow> onSendTick B cfg now rnd s = s"
    by (simp add: onSendTick_def)
next
  show "state s = CONNECTING \<longrightarrow>
      (\<exists>fs. out (step B cfg ev s) = out s @ fs \<and> (\<forall>f\<in>set fs. \<not> is_SEND f))"
  proof
    assume st: "state s = CONNECTING"
    show "\<exists>fs. out (step B cfg ev s) = out s @ fs \<and> (\<forall>f\<in>set fs. \<not> is_SEND f)"
    proof (cases ev)
      case Open
      have "out (step B cfg ev s) = out s @ [connect cfg]"
        by (simp add: Open onOpen_def socket_send_def Let_def)
      then show ?thesis using connect_not_SEND by auto
    next
      case (Message raw now' reply)
      from onMessage_out[of B cfg raw now' reply s] show ?thesis
      proof
        assume "out (onMessage B cfg raw now' reply s) = out s"
        then have "out (step B cfg ev s) = out s @ []" by (simp add: Message)
        then show ?thesis by fastforce
      next
        assume "out (onMessage B cfg raw now' reply s) = out s @ [subscribe B cfg]"
        then have "out (step B cfg ev s) = out s @ [subscribe B cfg]" by (simp add: Message)
        then show ?thesis using subscribe_not_SEND by auto
      qed
    next
      case (SendTick now' rnd')
      then have "out (step B cfg ev s) = out s @ []" using st by (simp add: onSendTick_def)
      then show ?thesis by fastforce
    next
      case (RefreshTick reply)
      then have "out (step B cfg ev s) = out s @ []" by (simp add: refreshChats_def)
      then show ?thesis by fastforce
    next
      case Error
      then have "out (step B cfg ev s) = out s @ []" by (simp add: onError_def)
      then show ?thesis by fastforce
    next
      case Close
      then have "out (step B cfg ev s) = out s @ []" by simp
      then show ?thesis by fastforce
    qed
  qed
qed

theorem no_SEND_while_CONNECTING_witness:
  "state (init sample_config) \<noteq> CHATTING \<and>
   onSendTick sample_builtins sample_config 5 0 (init sample_config) = init sample_config \<and>
   state (init sample_config) = CONNECTING \<and>
   (\<exists>fs. out (step sample_builtins sample_config Open (init sample_config)) =
           out (init sample_config) @ fs \<and> (\<forall>f\<in>set fs. \<not> is_SEND f))"
  using no_SEND_while_CONNECTING[of "init sample_config" sample_builtins sample_config 5 0 Open]
  by (simp add: init_def)

subsection \<open>Frames received before CONNECTED\<close>


text \<open>
  What the handler does with a frame received in CONNECTING whose command is not
  CONNECTED: the session stays in CONNECTING, and \<^verbatim>\<open>stompErrors\<close> grows by one for the
  command ERROR and not at all for any other command.
\<close>

lemma CONNECTING_frame_effect:
  assumes "state s = CONNECTING" "parseStompFrame raw = Some f" "command f \<noteq> ''CONNECTED''"
  shows "state (onMessage B cfg raw now reply s) = CONNECTING \<and>
         stompErrors (onMessage B cfg raw now reply s) =
           stompErrors s + (if command f = ''ERROR'' then 1 else 0)"
  using assms
  by (auto simp: onMessage_def Let_def split: option.splits jsval.splits)

lemma CONNECTING_ERROR_frame_counted:
  "state (init sample_config) = CONNECTING \<and>
   parseStompFrame ERROR_frame =
     Some \<lparr>command = ''ERROR'', headers = Some [(''message'', ''denied'')], body = Some []\<rparr> \<and>
   ''ERROR'' \<noteq> ''CONNECTED'' \<and>
   state (onMessage sample_builtins sample_config ERROR_frame 0 [] (init sample_config)) = CONNECTING \<and>
   stompErrors (onMessage sample_builtins sample_config ERROR_frame 0 [] (init sample_config)) = 1"
proof -
  have st: "state (init sample_config) = CONNECTING" by (simp add: init_def)
  have c: "command \<lparr>command = ''ERROR'', headers = Some [(''message'', ''denied'')], body = Some []\<rparr>
           \<noteq> ''CONNECTED''" by simp
  from CONNECTING_frame_effect[OF st parse_ERROR_frame c, of sample_builtins sample_config 0 "[]"]
  show ?thesis using st parse_ERROR_frame by (simp add: init_def)
qed

subsection \<open>A second CONNECTED frame\<close>

text \<open>The CONNECTED branch takes no account of the state the session is in.\<close>

lemma CONNECTED_effects_in_any_state:
  assumes "parseStompFrame raw = Some f" "command f = ''CONNECTED''"
  shows "state (onMessage B cfg raw now reply s) = CHATTING \<and>
         out (onMessage B cfg raw now reply s) = out s @ [subscribe B cfg] \<and>
         chatIds (onMessage B cfg raw now reply s) = reply \<and>
         getChatReq (onMessage B cfg raw now reply s) = getChatReq s + 1 \<and>
         timers (onMessage B cfg raw now reply s) =
           (if CHAT_REFRESH_MS cfg > 0 then timers s @ [ChatRefresh (CHAT_REFRESH_MS cfg)]
            else timers s)"
  using assms by (simp add: onMessage_def Let_def socket_send_def refreshChats_def)

text \<open>
  Claim C5 does not hold of the handler: it tests the command of the frame and not the
  state, so a CONNECTED frame received in CHATTING sends SUBSCRIBE again, fetches the
  chat list again and registers one more refresh timer.
\<close>

theorem duplicate_CONNECTED_repeats_effects:
  "state (run sample_builtins sample_config connected_run (init sample_config)) = CHATTING \<and>
   out (step sample_builtins sample_config (Message CONNECTED_frame 2 [Str ''c1''])
          (run sample_builtins sample_config connected_run (init sample_config))) =
     out (run sample_builtins sample_config connected_run (init sample_config)) @
       [subscribe sample_builtins sample_config] \<and>
   getChatReq (run sample_builtins sample_config connected_run (init sample_config)) = 1 \<and>
   getChatReq (step sample_builtins sample_config (Message CONNECTED_frame 2 [Str ''c1''])
          (run sample_builtins sample_config connected_run (init sample_config))) = 2 \<and>
   timers (step sample_builtins sample_config (Message CONNECTED_frame 2 [Str ''c1''])
          (run sample_builtins sample_config connected_run (init sample_config))) =
     [SendLoop 10000, SessionClose 600000, ChatRefresh 30000, ChatRefresh 30000]"
  by (simp add: connected_run_def parse_CONNECTED_frame onMessage_def onOpen_def init_def
      socket_send_def refreshChats_def sample_config_def Let_def)

subsection \<open>What a MESSAGE frame changes\<close>

lemma length_update_le: "length (AList.update k v al) \<le> length al + 1"
  by (induction al) auto

lemma length_delete_distinct:
  "distinct (map fst al) \<Longrightarrow> (k, v) \<in> set al \<Longrightarrow> Suc (length (AList.delete k al)) = length al"
proof (induction al)
  case Nil
  then show ?case by simp
next
  case (Cons p ps)
  show ?case
  proof (cases "fst p = k")
    case True
    with Cons.prems have "k \<notin> fst ` set ps" by auto
    then show ?thesis using True by simp
  next
    case False
    with Cons show ?thesis by auto
  qed
qed

text \<open>
  Claim C10. A MESSAGE frame changes \<^verbatim>\<open>pending\<close> at the matched nonce only. When its body
  parses to a truthy value whose text matches \<^verbatim>\<open>ping:<digits>\<close>, whose sender converts to
  the same string as the own user id and whose nonce is pending, exactly that key is
  deleted, every other key keeps its value, and the one value appended to \<^verbatim>\<open>msgRTT\<close> is
  the clock reading minus the stored time. In every other case \<^verbatim>\<open>pending\<close> and \<^verbatim>\<open>msgRTT\<close>
  are unchanged.
\<close>

theorem MESSAGE_frame_effect:
  assumes "parseStompFrame raw = Some f" "command f = ''MESSAGE''"
  shows "(\<forall>t n start.
            truthy (safeJson B (body f)) \<and> msgText_of (safeJson B (body f)) = Str t \<and>
            ping_match t = Some n \<and>
            toStr B (senderId_of (safeJson B (body f))) = toStr B (userId cfg) \<and>
            map_of (pending s) n = Some start \<longrightarrow>
              pending (onMessage B cfg raw now reply s) = AList.delete n (pending s) \<and>
              map_of (pending (onMessage B cfg raw now reply s)) n = None \<and>
              (\<forall>k. k \<noteq> n \<longrightarrow>
                 map_of (pending (onMessage B cfg raw now reply s)) k = map_of (pending s) k) \<and>
              (distinct (map fst (pending s)) \<longrightarrow>
                 length (pending (onMessage B cfg raw now reply s)) + 1 = length (pending s)) \<and>
              msgRTT (onMessage B cfg raw now reply s) = msgRTT s @ [int now - int start]) \<and>
         (\<not> truthy (safeJson B (body f)) \<or>
          (\<forall>t n. msgText_of (safeJson B (body f)) = Str t \<and> ping_match t = Some n \<longrightarrow>
             toStr B (senderId_of (safeJson B (body f))) \<noteq> toStr B (userId cfg) \<or>
             map_of (pending s) n = None) \<longrightarrow>
              pending (onMessage B cfg raw now reply s) = pending s \<and>
              msgRTT (onMessage B cfg raw now reply s) = msgRTT s)"
  using assms
  by (auto simp: onMessage_def Let_def AList.delete_conv length_delete_distinct
      split: option.splits jsval.splits)

theorem MESSAGE_frame_effect_witness:
  \<open>parseStompFrame echo_frame =
     Some \<lparr>command = ''MESSAGE'', headers = Some [(''destination'', ''/user/u1/queue/messages'')],
           body = Some ''{"senderId":"u1","message":"ping:5"}''\<rparr> \<and>
   truthy (safeJson sample_builtins (Some ''{"senderId":"u1","message":"ping:5"}'')) \<and>
   msgText_of (safeJson sample_builtins (Some ''{"senderId":"u1","message":"ping:5"}'')) =
     Str ''ping:5'' \<and>
   ping_match ''ping:5'' = Some ''5'' \<and>
   map_of (pending two_pending) ''5'' = Some 5 \<and>
   pending (onMessage sample_builtins sample_config echo_frame 9 [] two_pending) = [(''7'', 7)] \<and>
   msgRTT (onMessage sample_builtins sample_config echo_frame 9 [] two_pending) = [4] \<and>
   pending (onMessage sample_builtins sample_config echo_frame 9 [] (init sample_config)) = [] \<and>
   msgRTT (onMessage sample_builtins sample_config echo_frame 9 [] (init sample_config)) = []\<close>
proof -
  let ?F = \<open>\<lparr>command = ''MESSAGE'', headers = Some [(''destination'', ''/user/u1/queue/messages'')],
           body = Some ''{"senderId":"u1","message":"ping:5"}''\<rparr>\<close>
  have c: "command ?F = ''MESSAGE''" by simp
  have h: \<open>truthy (safeJson sample_builtins (body ?F)) \<and>
      msgText_of (safeJson sample_builtins (body ?F)) = Str ''ping:5'' \<and>
      ping_match ''ping:5'' = Some ''5'' \<and>
      toStr sample_builtins (senderId_of (safeJson sample_builtins (body ?F))) =
        toStr sample_builtins (userId sample_config) \<and>
      map_of (pending two_pending) ''5'' = Some 5\<close>
    by (simp add: safeJson_def sample_builtins_def sample_config_def msgText_of_def
        senderId_of_def js_or_def ping_match_def is_digit_def two_pending_def init_def)
  have e: "\<forall>t n. msgText_of (safeJson sample_builtins (body ?F)) = Str t \<and> ping_match t = Some n \<longrightarrow>
      toStr sample_builtins (senderId_of (safeJson sample_builtins (body ?F))) \<noteq>
        toStr sample_builtins (userId sample_config) \<or>
      map_of (pending (init sample_config)) n = None"
    by (simp add: init_def)
  note th1 = MESSAGE_frame_effect[OF parse_echo_frame c, of sample_builtins sample_config
      two_pending 9 "[]", THEN conjunct1, rule_format, OF h]
  note th2 = MESSAGE_frame_effect[OF parse_echo_frame c, of sample_builtins sample_config
      "init sample_config" 9 "[]", THEN conjunct2, rule_format, OF disjI2, OF e]
  from th1 th2 h show ?thesis
    by (simp add: parse_echo_frame two_pending_def init_def)
qed

subsection \<open>Accounting of probes over a run\<close>

lemma digit_val_digit_char: "d < 10 \<Longrightarrow> digit_val (digit_char d) = d"
proof -
  assume "d < 10"
  then have "d \<in> {0, 1, 2, 3, 4, 5, 6, 7, 8, 9}" by auto
  then show ?thesis by (auto simp: digit_val_def digit_char_def)
qed

lemma undec_snoc: "undec (ds @ [c]) = 10 * undec ds + digit_val c"
  by (simp add: undec_def)

lemma undec_dec: "undec (dec n) = n"
proof (induction n rule: dec.induct)
  case (1 n)
  show ?case
  proof (cases "n < 10")
    case True
    then show ?thesis by (subst dec.simps) (simp add: undec_def digit_val_digit_char)
  next
    case False
    then have "undec (dec n) = 10 * undec (dec (n div 10)) + digit_val (digit_char (n mod 10))"
      by (subst dec.simps) (simp add: undec_snoc)
    also have "\<dots> = 10 * (n div 10) + n mod 10"
      using 1 False by (simp add: digit_val_digit_char)
    finally show ?thesis by simp
  qed
qed

lemma dec_inj: "dec m = dec n \<Longrightarrow> m = n"
  by (metis undec_dec)

lemma onMessage_cases:
  "(pending (onMessage B cfg raw now reply s) = pending s \<and>
    msgRTT (onMessage B cfg raw now reply s) = msgRTT s \<and>
    messagesSent (onMessage B cfg raw now reply s) = messagesSent s) \<or>
   (\<exists>n start. map_of (pending s) n = Some start \<and>
      pending (onMessage B cfg raw now reply s) = AList.delete n (pending s) \<and>
      msgRTT (onMessage B cfg raw now reply s) = msgRTT s @ [int now - int start] \<and>
      messagesSent (onMessage B cfg raw now reply s) = messagesSent s)"
  by (auto simp: onMessage_def Let_def socket_send_def refreshChats_def
      split: option.splits jsval.splits)

lemma onSendTick_cases:
  "onSendTick B cfg now rnd s = s \<or>
   (pending (onSendTick B cfg now rnd s) = AList.update (dec now) now (pending s) \<and>
    msgRTT (onSendTick B cfg now rnd s) = msgRTT s \<and>
    messagesSent (onSendTick B cfg now rnd s) = messagesSent s + 1)"
  by (auto simp: onSendTick_def Let_def socket_send_def)

lemma other_events:
  "pending (onOpen cfg s) = pending s" "msgRTT (onOpen cfg s) = msgRTT s"
  "messagesSent (onOpen cfg s) = messagesSent s"
  "pending (refreshChats reply s) = pending s" "msgRTT (refreshChats reply s) = msgRTT s"
  "messagesSent (refreshChats reply s) = messagesSent s"
  "pending (onError s) = pending s" "msgRTT (onError s) = msgRTT s"
  "messagesSent (onError s) = messagesSent s"
  by (simp_all add: onOpen_def refreshChats_def onError_def socket_send_def Let_def)

text \<open>The three ways one event can touch the accounting.\<close>

lemma step_cases:
  obtains
    (same) "pending (step B cfg ev s) = pending s" "msgRTT (step B cfg ev s) = msgRTT s"
      "messagesSent (step B cfg ev s) = messagesSent s"
  | (resolved) raw now reply n start where "ev = Message raw now reply"
      "map_of (pending s) n = Some start"
      "pending (step B cfg ev s) = AList.delete n (pending s)"
      "msgRTT (step B cfg ev s) = msgRTT s @ [int now - int start]"
      "messagesSent (step B cfg ev s) = messagesSent s"
  | (sent) now rnd where "ev = SendTick now rnd"
      "pending (step B cfg ev s) = AList.update (dec now) now (pending s)"
      "msgRTT (step B cfg ev s) = msgRTT s"
      "messagesSent (step B cfg ev s) = messagesSent s + 1"
proof (cases ev)
  case Open
  then show ?thesis using same by (simp add: other_events)
next
  case (Message raw now reply)
  from onMessage_cases[of B cfg raw now reply s] show ?thesis
  proof
    assume "pending (onMessage B cfg raw now reply s) = pending s \<and>
      msgRTT (onMessage B cfg raw now reply s) = msgRTT s \<and>
      messagesSent (onMessage B cfg raw now reply s) = messagesSent s"
    then show ?thesis using same Message by simp
  next
    assume "\<exists>n start. map_of (pending s) n = Some start \<and>
      pending (onMessage B cfg raw now reply s) = AList.delete n (pending s) \<and>
      msgRTT (onMessage B cfg raw now reply s) = msgRTT s @ [int now - int start] \<and>
      messagesSent (onMessage B cfg raw now reply s) = messagesSent s"
    then obtain n start where "map_of (pending s) n = Some start"
      "pending (onMessage B cfg raw now reply s) = AList.delete n (pending s)"
      "msgRTT (onMessage B cfg raw now reply s) = msgRTT s @ [int now - int start]"
      "messagesSent (onMessage B cfg raw now reply s) = messagesSent s" by blast
    then show ?thesis using resolved[of raw now reply n start] Message by simp
  qed
next
  case (SendTick now rnd)
  from onSendTick_cases[of B cfg now rnd s] show ?thesis
  proof
    assume "onSendTick B cfg now rnd s = s"
    then show ?thesis using same SendTick by simp
  next
    assume "pending (onSendTick B cfg now rnd s) = AList.update (dec now) now (pending s) \<and>
      msgRTT (onSendTick B cfg now rnd s) = msgRTT s \<and>
      messagesSent (onSendTick B cfg now rnd s) = messagesSent s + 1"
    then show ?thesis using sent[of now rnd] SendTick by simp
  qed
next
  case (RefreshTick reply)
  then show ?thesis using same by (simp add: other_events)
next
  case Error
  then show ?thesis using same by (simp add: other_events)
next
  case Close
  then show ?thesis using same by simp
qed

lemma step_distinct:
  assumes "distinct (map fst (pending s))"
  shows "distinct (map fst (pending (step B cfg ev s)))"
proof (cases rule: step_cases[of B cfg ev s])
  case same
  then show ?thesis using assms by simp
next
  case (resolved raw now reply n start)
  then show ?thesis using assms by (simp add: distinct_delete)
next
  case (sent now rnd)
  then show ?thesis using assms by (simp add: distinct_update)
qed

lemma step_keys:
  "fst ` set (pending (step B cfg ev s)) \<subseteq> fst ` set (pending s) \<union> dec ` set (tick_times [ev])"
proof (cases rule: step_cases[of B cfg ev s])
  case same
  then show ?thesis by simp
next
  case (resolved raw now reply n start)
  have "fst ` set (AList.delete n (pending s)) \<subseteq> fst ` set (pending s)"
    by (rule dom_delete_subset)
  then show ?thesis using resolved(3) by auto
next
  case (sent now rnd)
  have "fst ` set (AList.update (dec now) now (pending s)) = {dec now} \<union> fst ` set (pending s)"
    by (rule dom_update)
  then show ?thesis using sent(1,2) by simp
qed

lemma step_accounting_le:
  assumes "distinct (map fst (pending s))"
  shows "accounted (step B cfg ev s) + messagesSent s \<le> messagesSent (step B cfg ev s) + accounted s"
proof (cases rule: step_cases[of B cfg ev s])
  case same
  then show ?thesis by (simp add: accounted_def)
next
  case (resolved raw now reply n start)
  from resolved(2) have "(n, start) \<in> set (pending s)" by (rule map_of_SomeD)
  with assms have "Suc (length (AList.delete n (pending s))) = length (pending s)"
    by (rule length_delete_distinct)
  then show ?thesis using resolved(3,4,5) by (simp add: accounted_def)
next
  case (sent now rnd)
  have "length (AList.update (dec now) now (pending s)) \<le> length (pending s) + 1"
    by (rule length_update_le)
  then show ?thesis using sent(2,3,4) by (simp add: accounted_def)
qed

lemma step_accounting_eq:
  assumes "distinct (map fst (pending s))"
    and "dec ` set (tick_times [ev]) \<inter> fst ` set (pending s) = {}"
  shows "accounted (step B cfg ev s) + messagesSent s = messagesSent (step B cfg ev s) + accounted s"
proof (cases rule: step_cases[of B cfg ev s])
  case same
  then show ?thesis by (simp add: accounted_def)
next
  case (resolved raw now reply n start)
  from resolved(2) have "(n, start) \<in> set (pending s)" by (rule map_of_SomeD)
  with assms(1) have "Suc (length (AList.delete n (pending s))) = length (pending s)"
    by (rule length_delete_distinct)
  then show ?thesis using resolved(3,4,5) by (simp add: accounted_def)
next
  case (sent now rnd)
  from assms(2) sent(1) have "dec now \<notin> fst ` set (pending s)" by simp
  then have "AList.update (dec now) now (pending s) = pending s @ [(dec now, now)]"
    by (rule update_fresh)
  then show ?thesis using sent(2,3,4) by (simp add: accounted_def)
qed

lemma tick_times_Cons: "tick_times (ev # evs) = tick_times [ev] @ tick_times evs"
  by (cases ev) simp_all

lemma run_accounting_le:
  "distinct (map fst (pending s)) \<Longrightarrow>
   accounted (run B cfg evs s) + messagesSent s \<le> messagesSent (run B cfg evs s) + accounted s"
proof (induction evs arbitrary: s)
  case Nil
  then show ?case by simp
next
  case (Cons ev evs)
  have d: "distinct (map fst (pending (step B cfg ev s)))"
    using Cons.prems by (rule step_distinct)
  have le: "accounted (step B cfg ev s) + messagesSent s \<le> messagesSent (step B cfg ev s) + accounted s"
    using Cons.prems by (rule step_accounting_le)
  from Cons.IH[OF d] le show ?case by simp
qed

lemma run_accounting_eq:
  "distinct (map fst (pending s)) \<Longrightarrow> distinct (tick_times evs) \<Longrightarrow>
   dec ` set (tick_times evs) \<inter> fst ` set (pending s) = {} \<Longrightarrow>
   accounted (run B cfg evs s) + messagesSent s = messagesSent (run B cfg evs s) + accounted s"
proof (induction evs arbitrary: s)
  case Nil
  then show ?case by simp
next
  case (Cons ev evs)
  have tt: "tick_times (ev # evs) = tick_times [ev] @ tick_times evs" by (rule tick_times_Cons)
  from Cons.prems(3) have fresh: "dec ` set (tick_times [ev]) \<inter> fst ` set (pending s) = {}"
    unfolding tt by auto
  have d: "distinct (map fst (pending (step B cfg ev s)))"
    using Cons.prems(1) by (rule step_distinct)
  have sub: "fst ` set (pending (step B cfg ev s)) \<subseteq> fst ` set (pending s) \<union> dec ` set (tick_times [ev])"
    by (rule step_keys)
  have eq: "accounted (step B cfg ev s) + messagesSent s = messagesSent (step B cfg ev s) + accounted s"
    using Cons.prems(1) fresh by (rule step_accounting_eq)
  from Cons.prems(2) have d2: "distinct (tick_times evs)"
    and disj: "set (tick_times [ev]) \<inter> set (tick_times evs) = {}" unfolding tt by auto
  have fresh': "dec ` set (tick_times evs) \<inter> fst ` set (pending (step B cfg ev s)) = {}"
  proof (rule ccontr)
    assume "dec ` set (tick_times evs) \<inter> fst ` set (pending (step B cfg ev s)) \<noteq> {}"
    then obtain k where k1: "k \<in> dec ` set (tick_times evs)"
      and k2: "k \<in> fst ` set (pending (step B cfg ev s))" by blast
    from k1 obtain t where t: "t \<in> set (tick_times evs)" "k = dec t" by blast
    from k2 sub have "k \<in> fst ` set (pending s) \<or> k \<in> dec ` set (tick_times [ev])" by blast
    then show False
    proof
      assume "k \<in> fst ` set (pending s)"
      moreover have "k \<in> dec ` set (tick_times (ev # evs))" unfolding tt using k1 by auto
      ultimately show False using Cons.prems(3) by blast
    next
      assume "k \<in> dec ` set (tick_times [ev])"
      then obtain t' where t': "t' \<in> set (tick_times [ev])" "k = dec t'" by blast
      from t(2) t'(2) have "t = t'" by (simp add: dec_inj)
      with t(1) t'(1) disj show False by blast
    qed
  qed
  from Cons.IH[OF d d2 fresh'] eq show ?case by simp
qed

lemma onMessage_resolved_again:
  assumes "msgRTT (onMessage B cfg raw now reply s) \<noteq> msgRTT s"
  shows "msgRTT (onMessage B cfg raw now' reply' (onMessage B cfg raw now reply s)) =
           msgRTT (onMessage B cfg raw now reply s) \<and>
         pending (onMessage B cfg raw now' reply' (onMessage B cfg raw now reply s)) =
           pending (onMessage B cfg raw now reply s)"
  using assms
  by (auto simp: onMessage_def Let_def socket_send_def refreshChats_def AList.delete_conv
      split: option.splits jsval.splits if_splits)

lemma collide_run_result:
  "messagesSent (run sample_builtins sample_config collide_run (init sample_config)) = 2 \<and>
   msgRTT (run sample_builtins sample_config collide_run (init sample_config)) = [] \<and>
   pending (run sample_builtins sample_config collide_run (init sample_config)) = [(''5'', 5)]"
  by (simp add: collide_run_def parse_CONNECTED_frame session_defs dec_5)

lemma echo_run_result:
  "messagesSent (run sample_builtins sample_config echo_run (init sample_config)) = 2 \<and>
   msgRTT (run sample_builtins sample_config echo_run (init sample_config)) = [4] \<and>
   pending (run sample_builtins sample_config echo_run (init sample_config)) = [(''7'', 7)]"
  by (simp add: echo_run_def parse_CONNECTED_frame parse_echo_frame session_defs dec_5 dec_7
      sample_builtins_def sample_config_def)

text \<open>
  Claim C2, as stated, fails: the nonce is the clock reading of the send tick, so two
  ticks that read the same millisecond register under one key. Two probes are sent, none
  is resolved, and one is left pending.
\<close>

theorem nonce_collision_counterexample:
  "messagesSent (run sample_builtins sample_config collide_run (init sample_config)) = 2 \<and>
   length (msgRTT (run sample_builtins sample_config collide_run (init sample_config))) +
   length (pending (run sample_builtins sample_config collide_run (init sample_config))) = 1"
  using collide_run_result by simp

text \<open>
  Claim C2, amended. Over any run of a session the probes resolved plus the probes left
  pending never exceed the probes sent, and they equal the probes sent when the clock
  readings of the send ticks are pairwise distinct (no nonce is minted twice). A message
  that has resolved a probe resolves nothing when it is handled again: it records no
  second RTT and leaves \<^verbatim>\<open>pending\<close> as it is.
\<close>

theorem probe_accounting:
  "length (msgRTT (run B cfg evs (init cfg))) + length (pending (run B cfg evs (init cfg)))
     \<le> messagesSent (run B cfg evs (init cfg)) \<and>
   (distinct (tick_times evs) \<longrightarrow>
      length (msgRTT (run B cfg evs (init cfg))) + length (pending (run B cfg evs (init cfg)))
        = messagesSent (run B cfg evs (init cfg))) \<and>
   (msgRTT (onMessage B cfg raw now reply s) \<noteq> msgRTT s \<longrightarrow>
      msgRTT (onMessage B cfg raw now' reply' (onMessage B cfg raw now reply s)) =
        msgRTT (onMessage B cfg raw now reply s) \<and>
      pending (onMessage B cfg raw now' reply' (onMessage B cfg raw now reply s)) =
        pending (onMessage B cfg raw now reply s))"
proof (intro conjI impI)
  have i: "distinct (map fst (pending (init cfg)))" "accounted (init cfg) = 0"
    "messagesSent (init cfg) = 0" "fst ` set (pending (init cfg)) = {}"
    by (simp_all add: init_def accounted_def)
  from run_accounting_le[OF i(1), of B cfg evs] i(2,3)
  show "length (msgRTT (run B cfg evs (init cfg))) + length (pending (run B cfg evs (init cfg)))
     \<le> messagesSent (run B cfg evs (init cfg))"
    by (simp add: accounted_def)
  show "length (msgRTT (run B cfg evs (init cfg))) + length (pending (run B cfg evs (init cfg)))
        = messagesSent (run B cfg evs (init cfg))" if "distinct (tick_times evs)"
    using run_accounting_eq[OF i(1) that, of B cfg] i(2,3,4) by (simp add: accounted_def)
next
  assume a: "msgRTT (onMessage B cfg raw now reply s) \<noteq> msgRTT s"
  from onMessage_resolved_again[OF a, of now' reply']
  show "msgRTT (onMessage B cfg raw now' reply' (onMessage B cfg raw now reply s)) =
        msgRTT (onMessage B cfg raw now reply s)"
    and "pending (onMessage B cfg raw now' reply' (onMessage B cfg raw now reply s)) =
        pending (onMessage B cfg raw now reply s)"
    by simp_all
qed

theorem probe_accounting_witness:
  "distinct (tick_times echo_run) \<and>
   messagesSent (run sample_builtins sample_config echo_run (init sample_config)) = 2 \<and>
   length (msgRTT (run sample_builtins sample_config echo_run (init sample_config))) +
   length (pending (run sample_builtins sample_config echo_run (init sample_config))) = 2 \<and>
   msgRTT (onMessage sample_builtins sample_config echo_frame 9 [] two_pending) \<noteq>
     msgRTT two_pending \<and>
   msgRTT (onMessage sample_builtins sample_config echo_frame 10 []
            (onMessage sample_builtins sample_config echo_frame 9 [] two_pending)) = [4] \<and>
   pending (onMessage sample_builtins sample_config echo_frame 10 []
            (onMessage sample_builtins sample_config echo_frame 9 [] two_pending)) = [(''7'', 7)]"
proof -
  have d: "distinct (tick_times echo_run)" by (simp add: echo_run_def)
  have r: "msgRTT (onMessage sample_builtins sample_config echo_frame 9 [] two_pending) = [4]"
    "pending (onMessage sample_builtins sample_config echo_frame 9 [] two_pending) = [(''7'', 7)]"
    "msgRTT two_pending = []"
    by (simp_all add: parse_echo_frame session_defs two_pending_def sample_builtins_def
        sample_config_def)
  from probe_accounting[of sample_builtins sample_config echo_run echo_frame 9 "[]" two_pending
      10 "[]"] d r echo_run_result
  show ?thesis by simp
qed

subsection \<open>Bounds of the recorded round-trip times\<close>

lemma update_values: "snd ` set (AList.update k v al) \<subseteq> insert v (snd ` set al)"
  by (induction al) auto

lemma delete_values: "snd ` set (AList.delete k al) \<subseteq> snd ` set al"
  by (induction al) auto

lemma readings_Cons: "readings (ev # evs) = readings [ev] @ readings evs"
  by (cases ev) simp_all

lemma step_values:
  "snd ` set (pending (step B cfg ev s)) \<subseteq> snd ` set (pending s) \<union> set (readings [ev])"
proof (cases rule: step_cases[of B cfg ev s])
  case same
  then show ?thesis by simp
next
  case (resolved raw now reply n start)
  from delete_values[of n "pending s"] show ?thesis using resolved(3) by auto
next
  case (sent now rnd)
  from update_values[of "dec now" now "pending s"] show ?thesis using sent(1,2) by auto
qed

lemma step_rtt_bounds:
  assumes r: "\<forall>t\<in>set (readings [ev]). t0 \<le> t \<and> int t \<le> int t0 + T"
    and p: "\<forall>v\<in>snd ` set (pending s). t0 \<le> v \<and> (\<forall>t\<in>set (readings [ev]). v \<le> t)"
    and m: "\<forall>x\<in>set (msgRTT s). 0 \<le> x \<and> x \<le> T"
  shows "\<forall>x\<in>set (msgRTT (step B cfg ev s)). 0 \<le> x \<and> x \<le> T"
proof (cases rule: step_cases[of B cfg ev s])
  case same
  then show ?thesis using m by simp
next
  case (resolved raw now reply n start)
  from resolved(2) have "(n, start) \<in> set (pending s)" by (rule map_of_SomeD)
  then have "start \<in> snd ` set (pending s)" by force
  with p have "t0 \<le> start \<and> (\<forall>t\<in>set (readings [ev]). start \<le> t)" by blast
  then have s1: "t0 \<le> start" "start \<le> now" using resolved(1) by simp_all
  from r resolved(1) have s2: "int now \<le> int t0 + T" by simp
  have b: "0 \<le> int now - int start" "int now - int start \<le> T" using s1 s2 by linarith+
  show ?thesis using m b resolved(4) by simp
next
  case (sent now rnd)
  then show ?thesis using m by simp
qed

lemma run_rtt_bounds:
  "sorted (readings evs) \<Longrightarrow>
   \<forall>t\<in>set (readings evs). t0 \<le> t \<and> int t \<le> int t0 + T \<Longrightarrow>
   \<forall>v\<in>snd ` set (pending s). t0 \<le> v \<and> (\<forall>t\<in>set (readings evs). v \<le> t) \<Longrightarrow>
   \<forall>x\<in>set (msgRTT s). 0 \<le> x \<and> x \<le> T \<Longrightarrow>
   \<forall>x\<in>set (msgRTT (run B cfg evs s)). 0 \<le> x \<and> x \<le> T"
proof (induction evs arbitrary: s)
  case Nil
  then show ?case by simp
next
  case (Cons ev evs)
  have rc: "readings (ev # evs) = readings [ev] @ readings evs" by (rule readings_Cons)
  from Cons.prems(1) have so: "sorted (readings evs)"
    and ord: "\<forall>a\<in>set (readings [ev]). \<forall>b\<in>set (readings evs). a \<le> b"
    unfolding rc by (simp_all add: sorted_append)
  from Cons.prems(2) have r1: "\<forall>t\<in>set (readings [ev]). t0 \<le> t \<and> int t \<le> int t0 + T"
    and r2: "\<forall>t\<in>set (readings evs). t0 \<le> t \<and> int t \<le> int t0 + T"
    unfolding rc by simp_all
  from Cons.prems(3)
  have p1: "\<forall>v\<in>snd ` set (pending s). t0 \<le> v \<and> (\<forall>t\<in>set (readings [ev]). v \<le> t)"
    and p2: "\<forall>v\<in>snd ` set (pending s). \<forall>t\<in>set (readings evs). v \<le> t"
    unfolding rc by simp_all
  have m': "\<forall>x\<in>set (msgRTT (step B cfg ev s)). 0 \<le> x \<and> x \<le> T"
    using r1 p1 Cons.prems(4) by (rule step_rtt_bounds)
  have sub: "snd ` set (pending (step B cfg ev s)) \<subseteq> snd ` set (pending s) \<union> set (readings [ev])"
    by (rule step_values)
  have p': "\<forall>v\<in>snd ` set (pending (step B cfg ev s)). t0 \<le> v \<and> (\<forall>t\<in>set (readings evs). v \<le> t)"
  proof
    fix v assume "v \<in> snd ` set (pending (step B cfg ev s))"
    with sub have "v \<in> snd ` set (pending s) \<or> v \<in> set (readings [ev])" by blast
    then show "t0 \<le> v \<and> (\<forall>t\<in>set (readings evs). v \<le> t)"
    proof
      assume "v \<in> snd ` set (pending s)"
      then show ?thesis using p1 p2 by blast
    next
      assume "v \<in> set (readings [ev])"
      then show ?thesis using r1 ord by blast
    qed
  qed
  from Cons.IH[OF so r2 p' m'] show ?case by simp
qed

text \<open>
  The value added to \<^verbatim>\<open>msgRTT\<close> is the clock reading of the resolving message minus the
  time stored for the nonce, and the time a send tick stores is its own clock reading.
\<close>

lemma rtt_is_now_minus_sentAt:
  "(msgRTT (onMessage B cfg raw now reply s) = msgRTT s \<or>
    (\<exists>n start. map_of (pending s) n = Some start \<and>
       msgRTT (onMessage B cfg raw now reply s) = msgRTT s @ [int now - int start])) \<and>
   (onSendTick B cfg now rnd s = s \<or>
    map_of (pending (onSendTick B cfg now rnd s)) (dec now) = Some now)"
proof
  from onMessage_cases[of B cfg raw now reply s]
  show "msgRTT (onMessage B cfg raw now reply s) = msgRTT s \<or>
          (\<exists>n start. map_of (pending s) n = Some start \<and>
             msgRTT (onMessage B cfg raw now reply s) = msgRTT s @ [int now - int start])"
    by blast
next
  from onSendTick_cases[of B cfg now rnd s]
  show "onSendTick B cfg now rnd s = s \<or>
          map_of (pending (onSendTick B cfg now rnd s)) (dec now) = Some now"
    by (auto simp: update_conv')
qed

text \<open>Under a clock that never goes back no recorded value is negative.\<close>

lemma rtt_nonneg_under_monotone_clock:
  assumes "sorted (readings evs)"
  shows "\<forall>x\<in>set (msgRTT (run B cfg evs (init cfg))). 0 \<le> x"
proof -
  have b: "\<forall>t\<in>set (readings evs). 0 \<le> t \<and> int t \<le> int 0 + int (sum_list (readings evs))"
    by (simp add: member_le_sum_list)
  have p: "\<forall>v\<in>snd ` set (pending (init cfg)). 0 \<le> v \<and> (\<forall>t\<in>set (readings evs). v \<le> t)"
    and m: "\<forall>x\<in>set (msgRTT (init cfg)). 0 \<le> x \<and> x \<le> int (sum_list (readings evs))"
    by (simp_all add: init_def)
  from run_rtt_bounds[OF assms b p m, of B cfg] show ?thesis by blast
qed


subsection \<open>Teardown\<close>

text \<open>Teardown adds up the entries of \<^verbatim>\<open>globalPending\<close>, one per virtual user.\<close>

lemma foldl_pending_total:
  "foldl (\<lambda>total (v, p). total + length p) a g = a + sum_list (map (\<lambda>(v, p). length p) g)"
  by (induction g arbitrary: a) (auto simp: case_prod_beta)

lemma teardown_total:
  "undeliveredMessages (teardown w) =
   undeliveredMessages w + sum_list (map (\<lambda>(v, p). length p) (globalPending w))"
  by (simp add: teardown_def Let_def foldl_pending_total)

text \<open>
  Claim C4 does not hold of the code: each iteration stores its \<^verbatim>\<open>pending\<close> object under
  the key of its virtual user, replacing the object of that user's earlier session.
  Virtual user 1 runs two sessions; the first ends with one unanswered probe, the second
  with none. Teardown reports 0, the sessions left 1.
\<close>

theorem teardown_omits_earlier_session:
  "map (\<lambda>s. length (pending s))
     (sessions (iterations sample_builtins (10000, 600000, 30000) two_sessions world0)) = [1, 0] \<and>
   globalPending (iterations sample_builtins (10000, 600000, 30000) two_sessions world0) = [(1, [])] \<and>
   undeliveredMessages
     (teardown (iterations sample_builtins (10000, 600000, 30000) two_sessions world0)) = 0"
  by (simp add: two_sessions_def world0_def open_session_def teardown_def
      parse_CONNECTED_frame session_defs dec_5)

end
